theory Spec2Isabelle
  imports Main "HOL-Library.Multiset"
begin

section \<open>Python values, dicts and errors\<close>

text \<open>
  The check list of \<^verbatim>\<open>custom_components/check_list/__init__.py\<close> is a Python list
  of dicts, one dict per item, loaded from and saved to JSON. The values stored under an
  item's keys are JSON scalars: \<^verbatim>\<open>None\<close>, a bool, an int or a str.
\<close>

datatype pyval = VNone | VBool bool | VInt int | VStr string

text \<open>Python's \<^verbatim>\<open>==\<close> on these values: a bool is an int (\<^verbatim>\<open>True == 1\<close>).\<close>

fun py_eq :: "pyval \<Rightarrow> pyval \<Rightarrow> bool" where
  "py_eq VNone VNone = True"
| "py_eq (VBool a) (VBool b) = (a = b)"
| "py_eq (VBool a) (VInt n) = ((if a then 1 else 0) = n)"
| "py_eq (VInt n) (VBool a) = (n = (if a then 1 else 0))"
| "py_eq (VInt m) (VInt n) = (m = n)"
| "py_eq (VStr s) (VStr t) = (s = t)"
| "py_eq _ _ = False"

text \<open>Python's truth value of a value, as \<^verbatim>\<open>not v\<close> takes it.\<close>

fun truthy :: "pyval \<Rightarrow> bool" where
  "truthy VNone = False"
| "truthy (VBool b) = b"
| "truthy (VInt n) = (n \<noteq> 0)"
| "truthy (VStr s) = (s \<noteq> [])"

text \<open>
  \<^verbatim>\<open>raise KeyError\<close> (also what a read of a missing dict key raises) and
  \<^verbatim>\<open>raise vol.Invalid\<close>. The spec calls them ItemNotFound and ValidationError.
\<close>

datatype error = KeyError | Invalid

text \<open>
  A dict with str keys, in insertion order. \<^verbatim>\<open>d[k]\<close> raises KeyError on a missing
  key; \<^verbatim>\<open>d[k] = v\<close> overwrites in place or appends; \<^verbatim>\<open>d.update(info)\<close> assigns
  the pairs of \<^verbatim>\<open>info\<close> in order.
\<close>

type_synonym item = "(string \<times> pyval) list"

definition getitem :: "item \<Rightarrow> string \<Rightarrow> error + pyval" where
  "getitem d k = (case map_of d k of None \<Rightarrow> Inl KeyError | Some v \<Rightarrow> Inr v)"

fun setitem :: "item \<Rightarrow> string \<Rightarrow> pyval \<Rightarrow> item" where
  "setitem [] k v = [(k, v)]"
| "setitem ((k', v') # d) k v = (if k' = k then (k', v) # d else (k', v') # setitem d k v)"

definition dict_update :: "item \<Rightarrow> item \<Rightarrow> item" where
  "dict_update d info = fold (\<lambda>(k, v) d'. setitem d' k v) info d"

text \<open>
  The dict \<^verbatim>\<open>all_items_mapping\<close> of \<^verbatim>\<open>async_reorder\<close>: keyed by whatever is
  stored under an item's \<^verbatim>\<open>"id"\<close>, keys compared with \<^verbatim>\<open>==\<close>, iterated in insertion
  order. \<^verbatim>\<open>del m[k]\<close> drops the entry of \<^verbatim>\<open>k\<close>.
\<close>

type_synonym mapping = "(pyval \<times> item) list"

fun mapping_get :: "mapping \<Rightarrow> pyval \<Rightarrow> item option" where
  "mapping_get [] k = None"
| "mapping_get ((k', itm) # m) k = (if py_eq k' k then Some itm else mapping_get m k)"

fun mapping_set :: "mapping \<Rightarrow> pyval \<Rightarrow> item \<Rightarrow> mapping" where
  "mapping_set [] k itm = [(k, itm)]"
| "mapping_set ((k', itm') # m) k itm =
     (if py_eq k' k then (k', itm) # m else (k', itm') # mapping_set m k itm)"

definition mapping_del :: "mapping \<Rightarrow> pyval \<Rightarrow> mapping" where
  "mapping_del m k = filter (\<lambda>(k', itm). \<not> py_eq k' k) m"

section \<open>The update schema\<close>

text \<open>
  \<^verbatim>\<open>ITEM_UPDATE_SCHEMA = vol.Schema({ATTR_COMPLETE: bool, ATTR_NAME: str, ATTR_TYPE: str})\<close>
  with \<^verbatim>\<open>ATTR_NAME = "name"\<close>, \<^verbatim>\<open>ATTR_TYPE = "type"\<close>, \<^verbatim>\<open>ATTR_COMPLETE = "complete"\<close>.
  A voluptuous dict schema makes every key optional, refuses a key it does not list, checks
  each value with \<^verbatim>\<open>isinstance\<close> against the listed type, and returns the checked dict.
  The spec writes \<^verbatim>\<open>item_type\<close> for the field the code stores under \<^verbatim>\<open>"type"\<close>.
\<close>

abbreviation ATTR_NAME :: string where "ATTR_NAME \<equiv> ''name''"
abbreviation ATTR_TYPE :: string where "ATTR_TYPE \<equiv> ''type''"
abbreviation ATTR_COMPLETE :: string where "ATTR_COMPLETE \<equiv> ''complete''"

fun is_bool :: "pyval \<Rightarrow> bool" where
  "is_bool (VBool b) = True"
| "is_bool v = False"

fun is_str :: "pyval \<Rightarrow> bool" where
  "is_str (VStr s) = True"
| "is_str v = False"

definition schema_entry_ok :: "string \<times> pyval \<Rightarrow> bool" where
  "schema_entry_ok kv =
     (if fst kv = ATTR_COMPLETE then is_bool (snd kv)
      else if fst kv = ATTR_NAME then is_str (snd kv)
      else if fst kv = ATTR_TYPE then is_str (snd kv)
      else False)"

definition ITEM_UPDATE_SCHEMA :: "item \<Rightarrow> error + item" where
  "ITEM_UPDATE_SCHEMA info = (if list_all schema_entry_ok info then Inr info else Inl Invalid)"

section \<open>CheckData\<close>

text \<open>
  The class holds the list \<^verbatim>\<open>self.items\<close>; every method takes the object and returns
  what the call returns or raises, together with the object afterwards. The save to disk
  and the event fired after each mutation belong to the host and are left out. No two
  positions of the list hold the same dict object (the list is loaded from JSON, extended
  by fresh dicts and rebuilt from a dict's values), so updating one item in place changes
  one position.
\<close>

record CheckData =
  items :: "item list"

text \<open>
  \<^verbatim>\<open>async_add\<close>: \<^verbatim>\<open>uuid.uuid4().hex\<close> is the parameter \<open>new_id\<close>.
\<close>

definition async_add :: "CheckData \<Rightarrow> pyval \<Rightarrow> pyval \<Rightarrow> string \<Rightarrow> item \<times> CheckData" where
  "async_add self name item_type new_id =
     (let item = [(''name'', name), (''type'', item_type), (''id'', VStr new_id),
                  (''complete'', VBool False), (''index'', VInt (int (length (items self))))]
      in (item, self\<lparr>items := items self @ [item]\<rparr>))"

text \<open>
  \<^verbatim>\<open>next((itm for itm in self.items if itm["id"] == item_id), None)\<close>: the position of
  the first item whose id equals \<open>item_id\<close>, counted from \<open>i\<close>.
\<close>

fun find_item :: "item list \<Rightarrow> string \<Rightarrow> nat \<Rightarrow> error + nat option" where
  "find_item [] item_id i = Inr None"
| "find_item (itm # rest) item_id i =
     (case getitem itm ''id'' of
        Inl e \<Rightarrow> Inl e
      | Inr v \<Rightarrow> if py_eq v (VStr item_id) then Inr (Some i) else find_item rest item_id (Suc i))"

definition async_update :: "CheckData \<Rightarrow> string \<Rightarrow> item \<Rightarrow> (error + item) \<times> CheckData" where
  "async_update self item_id info =
     (case find_item (items self) item_id 0 of
        Inl e \<Rightarrow> (Inl e, self)
      | Inr None \<Rightarrow> (Inl KeyError, self)
      | Inr (Some i) \<Rightarrow>
          (case ITEM_UPDATE_SCHEMA info of
             Inl e \<Rightarrow> (Inl e, self)
           | Inr info' \<Rightarrow>
               (let item = dict_update (items self ! i) info'
                in (Inr item, self\<lparr>items := (items self)[i := item]\<rparr>))))"

text \<open>\<^verbatim>\<open>[itm for itm in self.items if not itm["complete"]]\<close>\<close>

fun incomplete_items :: "item list \<Rightarrow> error + item list" where
  "incomplete_items [] = Inr []"
| "incomplete_items (itm # rest) =
     (case getitem itm ''complete'' of
        Inl e \<Rightarrow> Inl e
      | Inr c \<Rightarrow>
          (case incomplete_items rest of
             Inl e \<Rightarrow> Inl e
           | Inr kept \<Rightarrow> Inr (if \<not> truthy c then itm # kept else kept)))"

definition async_clear_completed :: "CheckData \<Rightarrow> (error + unit) \<times> CheckData" where
  "async_clear_completed self =
     (case incomplete_items (items self) of
        Inl e \<Rightarrow> (Inl e, self)
      | Inr kept \<Rightarrow> (Inr (), self\<lparr>items := kept\<rparr>))"

definition async_list_items :: "CheckData \<Rightarrow> item list \<times> CheckData" where
  "async_list_items self = (items self, self)"

text \<open>
  \<^verbatim>\<open>for item in self.items: item.update(info)\<close>, with no schema in between. The
  definition gives the list in memory after the loop; the awaited save and the event that
  follow it are left out, as everywhere.
\<close>

definition async_update_list :: "CheckData \<Rightarrow> item \<Rightarrow> item list \<times> CheckData" where
  "async_update_list self info =
     (let new_items = map (\<lambda>item. dict_update item info) (items self)
      in (new_items, self\<lparr>items := new_items\<rparr>))"

text \<open>
  \<^verbatim>\<open>async_reorder\<close>, in its three loops. \<open>item_ids\<close> is a list of str (the websocket
  command's schema is \<^verbatim>\<open>[str]\<close>).
\<close>

text \<open>\<^verbatim>\<open>{item["id"]: item for item in self.items}\<close>\<close>

fun build_mapping :: "item list \<Rightarrow> mapping \<Rightarrow> error + mapping" where
  "build_mapping [] m = Inr m"
| "build_mapping (itm # rest) m =
     (case getitem itm ''id'' of
        Inl e \<Rightarrow> Inl e
      | Inr k \<Rightarrow> build_mapping rest (mapping_set m k itm))"

text \<open>The loop over \<open>item_ids\<close>: look up, append, delete.\<close>

fun place_items :: "string list \<Rightarrow> mapping \<Rightarrow> item list \<Rightarrow> error + (item list \<times> mapping)" where
  "place_items [] m new_items = Inr (new_items, m)"
| "place_items (item_id # rest) m new_items =
     (case mapping_get m (VStr item_id) of
        None \<Rightarrow> Inl KeyError
      | Some itm \<Rightarrow> place_items rest (mapping_del m (VStr item_id)) (new_items @ [itm]))"

text \<open>
  The loop over what is left in the mapping:
  \<^verbatim>\<open>if all_items_mapping[key]["complete"] is False: raise vol.Invalid(...)\<close>.
\<close>

fun append_rest :: "mapping \<Rightarrow> item list \<Rightarrow> error + item list" where
  "append_rest [] new_items = Inr new_items"
| "append_rest ((key, itm) # m) new_items =
     (case getitem itm ''complete'' of
        Inl e \<Rightarrow> Inl e
      | Inr c \<Rightarrow> if c = VBool False then Inl Invalid else append_rest m (new_items @ [itm]))"

definition async_reorder :: "CheckData \<Rightarrow> string list \<Rightarrow> (error + unit) \<times> CheckData" where
  "async_reorder self item_ids =
     (case build_mapping (items self) [] of
        Inl e \<Rightarrow> (Inl e, self)
      | Inr m \<Rightarrow>
          (case place_items item_ids m [] of
             Inl e \<Rightarrow> (Inl e, self)
           | Inr (placed, m') \<Rightarrow>
               (case append_rest m' placed of
                  Inl e \<Rightarrow> (Inl e, self)
                | Inr new_items \<Rightarrow> (Inr (), self\<lparr>items := new_items\<rparr>))))"

section \<open>Items and list states\<close>

text \<open>
  What the properties speak about: the value under an item's \<^verbatim>\<open>"id"\<close>, an item having
  a given str id, an item being complete or not. An item of the data model has a str id and
  a bool completion flag; these are the two fields the store reads.
\<close>

definition id_of :: "item \<Rightarrow> pyval option" where
  "id_of itm = map_of itm ''id''"

definition has_id :: "string \<Rightarrow> item \<Rightarrow> bool" where
  "has_id i itm = (id_of itm = Some (VStr i))"

definition is_complete :: "item \<Rightarrow> bool" where
  "is_complete itm = (map_of itm ''complete'' = Some (VBool True))"

definition is_incomplete :: "item \<Rightarrow> bool" where
  "is_incomplete itm = (map_of itm ''complete'' = Some (VBool False))"

definition is_item :: "item \<Rightarrow> bool" where
  "is_item itm =
     ((case map_of itm ''id'' of Some (VStr s) \<Rightarrow> True | _ \<Rightarrow> False) \<and>
      (case map_of itm ''complete'' of Some (VBool b) \<Rightarrow> True | _ \<Rightarrow> False))"

definition distinct_ids :: "item list \<Rightarrow> bool" where
  "distinct_ids xs = distinct (map id_of xs)"

text \<open>The items named by a list of ids, in the order of the ids.\<close>

definition items_named :: "item list \<Rightarrow> string list \<Rightarrow> item list" where
  "items_named xs item_ids = List.map_filter (\<lambda>i. find (has_id i) xs) item_ids"

definition omitted :: "string list \<Rightarrow> item \<Rightarrow> bool" where
  "omitted item_ids itm = list_all (\<lambda>i. \<not> has_id i itm) item_ids"

definition ids_exist :: "item list \<Rightarrow> string list \<Rightarrow> bool" where
  "ids_exist xs item_ids = list_all (\<lambda>i. list_ex (has_id i) xs) item_ids"

text \<open>
  For the proofs about \<open>async_reorder\<close>: an item whose id is a str, the key an item is
  filed under, and the mapping that \<open>build_mapping\<close> makes of a list whose ids are
  distinct strs.
\<close>

definition str_id :: "item \<Rightarrow> bool" where
  "str_id itm = (case id_of itm of Some (VStr s) \<Rightarrow> True | _ \<Rightarrow> False)"

definition key_of :: "item \<Rightarrow> pyval" where
  "key_of itm = (case id_of itm of Some v \<Rightarrow> v | None \<Rightarrow> VNone)"

definition entries :: "item list \<Rightarrow> mapping" where
  "entries xs = map (\<lambda>itm. (key_of itm, itm)) xs"

text \<open>
  Update called once for each id of a list of ids, in order, stopping at the first call
  that raises; and Add called once for each (name, type, generated id) of a list.
\<close>

fun update_each :: "CheckData \<Rightarrow> string list \<Rightarrow> item \<Rightarrow> (error + unit) \<times> CheckData" where
  "update_each self [] info = (Inr (), self)"
| "update_each self (item_id # rest) info =
     (case async_update self item_id info of
        (Inl e, self') \<Rightarrow> (Inl e, self')
      | (Inr item, self') \<Rightarrow> update_each self' rest info)"

fun add_each :: "CheckData \<Rightarrow> (pyval \<times> pyval \<times> string) list \<Rightarrow> CheckData" where
  "add_each self [] = self"
| "add_each self ((name, item_type, new_id) # rest) =
     add_each (snd (async_add self name item_type new_id)) rest"

text \<open>
  The list of the spec's examples: A is complete, B and C are not.
\<close>

definition ex_A :: item where
  "ex_A = [(''name'', VStr ''A''), (''type'', VNone), (''id'', VStr ''a''),
           (''complete'', VBool True), (''index'', VInt 0)]"

definition ex_B :: item where
  "ex_B = [(''name'', VStr ''B''), (''type'', VNone), (''id'', VStr ''b''),
           (''complete'', VBool False), (''index'', VInt 1)]"

definition ex_C :: item where
  "ex_C = [(''name'', VStr ''C''), (''type'', VStr ''food''), (''id'', VStr ''c''),
           (''complete'', VBool False), (''index'', VInt 2)]"

definition ex_data :: CheckData where
  "ex_data = \<lparr>items = [ex_A, ex_B, ex_C]\<rparr>"

section \<open>Properties\<close>



lemma str_id_iff: "str_id itm = (\<exists>s. id_of itm = Some (VStr s))"
  by (auto simp: str_id_def split: option.splits pyval.splits)

lemma py_eq_VStr [simp]: "py_eq k (VStr s) = (k = VStr s)"
  by (cases k) auto

lemma getitem_id: "getitem itm ''id'' = (case id_of itm of None \<Rightarrow> Inl KeyError | Some v \<Rightarrow> Inr v)"
  by (simp add: getitem_def id_of_def)

lemma is_item_str_id: "is_item itm \<Longrightarrow> str_id itm"
  by (auto simp: is_item_def str_id_iff id_of_def split: option.splits pyval.splits)

lemma mapping_get_VStr: "mapping_get m (VStr s) = map_of m (VStr s)"
  by (induction m) auto

lemma mapping_set_fresh: "VStr s \<notin> fst ` set m \<Longrightarrow> mapping_set m (VStr s) itm = m @ [(VStr s, itm)]"
  by (induction m) auto

lemma mapping_del_VStr: "mapping_del m (VStr s) = filter (\<lambda>(k, itm). k \<noteq> VStr s) m"
  by (simp add: mapping_del_def)

lemma build_mapping_entries:
  "\<lbrakk>\<forall>itm \<in> set xs. str_id itm; distinct (map id_of xs); \<forall>itm \<in> set xs. key_of itm \<notin> fst ` set m\<rbrakk>
   \<Longrightarrow> build_mapping xs m = Inr (m @ entries xs)"
proof (induction xs arbitrary: m)
  case Nil
  show ?case by (simp add: entries_def)
next
  case (Cons itm rest)
  from Cons.prems(1) obtain s where s: "id_of itm = Some (VStr s)"
    by (auto simp: str_id_iff)
  then have k: "key_of itm = VStr s" by (simp add: key_of_def)
  from Cons.prems(3) k have fresh: "VStr s \<notin> fst ` set m" by simp
  have rest_keys: "\<forall>r \<in> set rest. key_of r \<notin> fst ` set (m @ [(VStr s, itm)])"
  proof
    fix r assume r: "r \<in> set rest"
    with Cons.prems(1) obtain t where t: "id_of r = Some (VStr t)" by (auto simp: str_id_iff)
    from Cons.prems(2) have "id_of itm \<notin> id_of ` set rest" by simp
    with r have "id_of r \<noteq> id_of itm" by (metis imageI)
    with s t have "t \<noteq> s" by simp
    moreover from Cons.prems(3) r have "key_of r \<notin> fst ` set m" by simp
    ultimately show "key_of r \<notin> fst ` set (m @ [(VStr s, itm)])"
      using t by (simp add: key_of_def)
  qed
  have "build_mapping rest (m @ [(VStr s, itm)]) = Inr ((m @ [(VStr s, itm)]) @ entries rest)"
    using Cons.prems(1,2) rest_keys by (intro Cons.IH) auto
  then show ?case using s k fresh
    by (simp add: getitem_id mapping_set_fresh entries_def)
qed

lemma build_mapping_error: "build_mapping xs m = Inl e \<Longrightarrow> e = KeyError"
  by (induction xs arbitrary: m) (auto simp: getitem_def split: option.splits)

lemma mapping_set_keys: "fst ` set (mapping_set m k itm) \<subseteq> insert k (fst ` set m)"
proof (induction m)
  case Nil
  show ?case by simp
next
  case (Cons p m)
  obtain k' itm' where p: "p = (k', itm')" by (cases p)
  show ?case
  proof (cases "py_eq k' k")
    case True
    with p show ?thesis by auto
  next
    case False
    with p Cons.IH show ?thesis by auto
  qed
qed

lemma build_mapping_keys:
  "build_mapping xs m = Inr m' \<Longrightarrow> fst ` set m' \<subseteq> fst ` set m \<union> {v. \<exists>itm \<in> set xs. id_of itm = Some v}"
proof (induction xs arbitrary: m)
  case Nil
  then show ?case by simp
next
  case (Cons itm rest)
  from Cons.prems obtain k where k: "id_of itm = Some k"
    and b: "build_mapping rest (mapping_set m k itm) = Inr m'"
    by (auto simp: getitem_id split: option.splits)
  from Cons.IH [OF b] mapping_set_keys [of m k itm] k show ?case by auto
qed

lemma place_items_error: "place_items is m acc = Inl e \<Longrightarrow> e = KeyError"
  by (induction "is" arbitrary: m acc) (auto split: option.splits)

lemma place_items_Inr:
  "place_items is m acc = Inr r \<Longrightarrow> distinct is \<and> (\<forall>i \<in> set is. VStr i \<in> fst ` set m)"
proof (induction "is" arbitrary: m acc)
  case Nil
  show ?case by simp
next
  case (Cons i rest)
  from Cons.prems obtain itm where g: "map_of m (VStr i) = Some itm"
    and p: "place_items rest (mapping_del m (VStr i)) (acc @ [itm]) = Inr r"
    by (auto simp: mapping_get_VStr split: option.splits)
  from Cons.IH [OF p] have d: "distinct rest"
    and sub: "\<forall>j \<in> set rest. VStr j \<in> fst ` set (mapping_del m (VStr i))" by auto
  from sub have "i \<notin> set rest" by (force simp: mapping_del_VStr)
  moreover from sub have "\<forall>j \<in> set rest. VStr j \<in> fst ` set m" by (force simp: mapping_del_VStr)
  moreover from g have "VStr i \<in> fst ` set m" by (force dest: map_of_SomeD)
  ultimately show ?case using d by simp
qed

lemma map_of_filter_other:
  "b \<noteq> a \<Longrightarrow> map_of (filter (\<lambda>(k, v). k \<noteq> a) m) b = map_of m b"
  by (induction m) auto

lemma map_filter_cong_set:
  "(\<And>x. x \<in> set xs \<Longrightarrow> f x = g x) \<Longrightarrow> List.map_filter f xs = List.map_filter g xs"
  by (induction xs) (auto simp: List.map_filter_simps split: option.splits)

lemma place_items_ok:
  "\<lbrakk>distinct is; \<forall>i \<in> set is. VStr i \<in> fst ` set m\<rbrakk>
   \<Longrightarrow> place_items is m acc =
       Inr (acc @ List.map_filter (\<lambda>i. map_of m (VStr i)) is,
            filter (\<lambda>(k, itm). k \<notin> VStr ` set is) m)"
proof (induction "is" arbitrary: m acc)
  case Nil
  show ?case by (simp add: List.map_filter_simps)
next
  case (Cons i rest)
  let ?m = "filter (\<lambda>(k, itm). k \<noteq> VStr i) m"
  from Cons.prems obtain itm where g: "map_of m (VStr i) = Some itm"
    by (metis (no_types, lifting) list.set_intros(1) map_of_eq_None_iff not_Some_eq)
  from Cons.prems have keys: "\<forall>j \<in> set rest. VStr j \<in> fst ` set ?m" by force
  have same: "List.map_filter (\<lambda>j. map_of ?m (VStr j)) rest = List.map_filter (\<lambda>j. map_of m (VStr j)) rest"
  proof (rule map_filter_cong_set)
    fix j assume "j \<in> set rest"
    with Cons.prems(1) have "VStr j \<noteq> VStr i" by auto
    then show "map_of ?m (VStr j) = map_of m (VStr j)" by (rule map_of_filter_other)
  qed
  have fl: "filter (\<lambda>(k, itm). k \<notin> VStr ` set rest) ?m = filter (\<lambda>(k, itm). k \<notin> VStr ` set (i # rest)) m"
    by (induction m) auto
  from Cons.prems(1) have "distinct rest" by simp
  from Cons.IH [OF this keys, of "acc @ [itm]"] g same fl show ?case
    by (simp add: mapping_get_VStr mapping_del_VStr List.map_filter_simps)
qed



lemma append_rest_items:
  "\<forall>p \<in> set m. is_item (snd p) \<Longrightarrow>
   append_rest m acc =
     (if \<exists>p \<in> set m. is_incomplete (snd p) then Inl Invalid else Inr (acc @ map snd m))"
proof (induction m arbitrary: acc)
  case Nil
  show ?case by simp
next
  case (Cons p m)
  obtain k itm where p: "p = (k, itm)" by (cases p)
  with Cons.prems have "is_item itm" by simp
  then consider "getitem itm ''complete'' = Inr (VBool True)" "\<not> is_incomplete itm"
    | "getitem itm ''complete'' = Inr (VBool False)" "is_incomplete itm"
    by (auto simp: is_item_def getitem_def is_incomplete_def split: option.splits pyval.splits)
  then show ?case
  proof cases
    case 1
    with p Cons show ?thesis by simp
  next
    case 2
    with p show ?thesis by simp
  qed
qed

lemma map_of_entries:
  "\<forall>itm \<in> set xs. str_id itm \<Longrightarrow> map_of (entries xs) (VStr i) = find (has_id i) xs"
  by (induction xs) (auto simp: entries_def key_of_def has_id_def str_id_iff)

lemma keys_entries:
  "\<forall>itm \<in> set xs. str_id itm \<Longrightarrow> (VStr i \<in> fst ` set (entries xs)) = (\<exists>itm \<in> set xs. has_id i itm)"
  by (induction xs) (auto simp: entries_def key_of_def has_id_def str_id_iff)

lemma omitted_iff: "omitted item_ids itm = (\<forall>i \<in> set item_ids. \<not> has_id i itm)"
  by (simp add: omitted_def list_all_iff)

lemma rest_entries:
  "\<forall>itm \<in> set xs. str_id itm \<Longrightarrow>
   map snd (filter (\<lambda>(k, itm). k \<notin> VStr ` set item_ids) (entries xs)) = filter (omitted item_ids) xs"
  by (induction xs) (auto simp: entries_def key_of_def has_id_def str_id_iff omitted_iff)

lemma items_named_ids:
  "\<forall>i \<in> set item_ids. \<exists>itm \<in> set xs. has_id i itm \<Longrightarrow>
   map id_of (items_named xs item_ids) = map (\<lambda>i. Some (VStr i)) item_ids"
proof (induction item_ids)
  case Nil
  show ?case by (simp add: items_named_def List.map_filter_simps)
next
  case (Cons i rest)
  then obtain itm where "itm \<in> set xs" "has_id i itm" by auto
  then obtain y where f: "find (has_id i) xs = Some y" by (cases "find (has_id i) xs") (auto simp: find_None_iff)
  then have "has_id i y" by (auto simp: find_Some_iff)
  with f Cons show ?case by (simp add: items_named_def List.map_filter_simps has_id_def)
qed

lemma reorder_success:
  assumes str: "\<forall>itm \<in> set (items self). str_id itm"
    and dist: "distinct_ids (items self)"
    and d: "distinct item_ids"
    and ex: "\<forall>i \<in> set item_ids. \<exists>itm \<in> set (items self). has_id i itm"
  shows "async_reorder self item_ids =
    (case append_rest (filter (\<lambda>(k, itm). k \<notin> VStr ` set item_ids) (entries (items self)))
            (items_named (items self) item_ids) of
       Inl e \<Rightarrow> (Inl e, self)
     | Inr new_items \<Rightarrow> (Inr (), self\<lparr>items := new_items\<rparr>))"
proof -
  have b: "build_mapping (items self) [] = Inr (entries (items self))"
    using build_mapping_entries [of "items self" "[]"] str dist by (simp add: distinct_ids_def)
  have keys: "\<forall>i \<in> set item_ids. VStr i \<in> fst ` set (entries (items self))"
    using ex keys_entries [OF str] by simp
  have "List.map_filter (\<lambda>i. map_of (entries (items self)) (VStr i)) item_ids = items_named (items self) item_ids"
    unfolding items_named_def using map_of_entries [OF str] by simp
  with place_items_ok [OF d keys, of "[]"] b show ?thesis
    by (simp add: async_reorder_def)
qed

lemma reorder_KeyError:
  assumes "\<not> distinct item_ids \<or> (\<exists>i \<in> set item_ids. \<forall>itm \<in> set (items self). \<not> has_id i itm)"
  shows "async_reorder self item_ids = (Inl KeyError, self)"
proof (cases "build_mapping (items self) []")
  case (Inl e)
  with build_mapping_error [OF Inl] show ?thesis by (simp add: async_reorder_def)
next
  case (Inr m)
  have keys: "VStr i \<in> fst ` set m \<Longrightarrow> \<exists>itm \<in> set (items self). has_id i itm" for i
    using build_mapping_keys [OF Inr] by (auto simp: has_id_def)
  show ?thesis
  proof (cases "place_items item_ids m []")
    case (Inl e)
    with place_items_error [OF Inl] Inr show ?thesis by (simp add: async_reorder_def)
  next
    case r: (Inr r)
    from place_items_Inr [OF r] keys assms show ?thesis by blast
  qed
qed



lemma ids_exist_iff: "ids_exist xs item_ids = (\<forall>i \<in> set item_ids. \<exists>itm \<in> set xs. has_id i itm)"
  by (simp add: ids_exist_def list_all_iff list_ex_iff)

lemma list_all_str_id: "list_all is_item xs \<Longrightarrow> \<forall>itm \<in> set xs. str_id itm"
  by (simp add: list_all_iff is_item_str_id)

lemma is_item_not_both: "is_item itm \<Longrightarrow> is_incomplete itm = (\<not> is_complete itm)"
  by (auto simp: is_item_def is_complete_def is_incomplete_def split: option.splits pyval.splits)

lemma find_in_set: "find P xs = Some y \<Longrightarrow> y \<in> set xs"
  by (induction xs) (auto split: if_splits)

lemma items_named_subset: "set (items_named xs item_ids) \<subseteq> set xs"
  by (induction item_ids)
     (auto simp: items_named_def List.map_filter_simps dest: find_in_set split: option.splits)

text \<open>
  C5. Whatever the list holds, when item_ids contains an id that no item of the list has,
  Reorder raises KeyError (ItemNotFound) and the stored list is the one before the call.
\<close>

theorem reorder_unknown_id:
  assumes "\<exists>i \<in> set item_ids. \<forall>itm \<in> set (items self). \<not> has_id i itm"
  shows "async_reorder self item_ids = (Inl KeyError, self)"
  using assms by (intro reorder_KeyError) simp

text \<open>
  C10. Whatever the list holds, when some id occurs twice in item_ids, Reorder raises
  KeyError (ItemNotFound), also when every id of item_ids is the id of an item: an id is
  deleted from the mapping when it is placed, so its second occurrence is not found. The
  stored list is the one before the call.
\<close>

theorem reorder_repeated_id:
  assumes "\<not> distinct item_ids"
  shows "async_reorder self item_ids = (Inl KeyError, self)
         \<and> (\<forall>m new_items. place_items item_ids m new_items = Inl KeyError)"
proof (intro conjI allI)
  from assms show "async_reorder self item_ids = (Inl KeyError, self)"
    by (intro reorder_KeyError) simp
  show "place_items item_ids m new_items = Inl KeyError" for m new_items
  proof (cases "place_items item_ids m new_items")
    case (Inl e)
    with place_items_error [OF Inl] show ?thesis by simp
  next
    case (Inr r)
    from place_items_Inr [OF Inr] assms show ?thesis by simp
  qed
qed

text \<open>
  C2. (as amended: item_ids without a repeated id) On a list of items with distinct ids,
  when item_ids names existing items, each once, and some item of the list that item_ids
  omits is not complete, Reorder raises Invalid (ValidationError) and the stored list is
  the one before the call.
\<close>

theorem reorder_omits_incomplete:
  assumes "list_all is_item (items self)" and "distinct_ids (items self)"
    and "distinct item_ids" and "ids_exist (items self) item_ids"
    and "\<exists>itm \<in> set (items self). omitted item_ids itm \<and> is_incomplete itm"
  shows "async_reorder self item_ids = (Inl Invalid, self)"
proof -
  let ?m = "filter (\<lambda>(k, itm). k \<notin> VStr ` set item_ids) (entries (items self))"
  note str = list_all_str_id [OF assms(1)]
  have vals: "map snd ?m = filter (omitted item_ids) (items self)"
    by (rule rest_entries [OF str])
  have "set (map snd ?m) \<subseteq> set (items self)" unfolding vals by auto
  with assms(1) have wf: "\<forall>p \<in> set ?m. is_item (snd p)" by (auto simp: list_all_iff)
  from assms(5) have "\<exists>itm \<in> set (map snd ?m). is_incomplete itm" unfolding vals by auto
  then have "\<exists>p \<in> set ?m. is_incomplete (snd p)" by auto
  with append_rest_items [OF wf] have "append_rest ?m (items_named (items self) item_ids) = Inl Invalid"
    by simp
  with reorder_success [OF str assms(2,3)] assms(4) show ?thesis
    by (simp add: ids_exist_iff)
qed

text \<open>
  C4. (as amended: item_ids without a repeated id) On a list of items with distinct ids,
  when item_ids names existing items, each once, and every item that item_ids omits is
  complete, Reorder succeeds; the stored list is then the items named by item_ids, in the
  order of item_ids, followed by the omitted items in the order they had before.
\<close>

theorem reorder_appends_completed:
  assumes "list_all is_item (items self)" and "distinct_ids (items self)"
    and "distinct item_ids" and "ids_exist (items self) item_ids"
    and "list_all is_complete (filter (omitted item_ids) (items self))"
  shows "async_reorder self item_ids =
           (Inr (), self\<lparr>items := items_named (items self) item_ids @ filter (omitted item_ids) (items self)\<rparr>)
         \<and> map id_of (items_named (items self) item_ids) = map (\<lambda>i. Some (VStr i)) item_ids"
proof -
  let ?m = "filter (\<lambda>(k, itm). k \<notin> VStr ` set item_ids) (entries (items self))"
  note str = list_all_str_id [OF assms(1)]
  have vals: "map snd ?m = filter (omitted item_ids) (items self)"
    by (rule rest_entries [OF str])
  have sub: "set (map snd ?m) \<subseteq> {itm \<in> set (items self). omitted item_ids itm}" unfolding vals by auto
  with assms(1) have wf: "\<forall>p \<in> set ?m. is_item (snd p)" by (auto simp: list_all_iff)
  have "\<not> (\<exists>p \<in> set ?m. is_incomplete (snd p))"
  proof
    assume "\<exists>p \<in> set ?m. is_incomplete (snd p)"
    then obtain p where p: "p \<in> set ?m" "is_incomplete (snd p)" by blast
    with sub have "snd p \<in> set (items self)" "omitted item_ids (snd p)" by auto
    with assms(5) have "is_complete (snd p)" by (simp add: list_all_iff)
    moreover from wf p have "is_item (snd p)" by blast
    ultimately show False using p(2) by (simp add: is_item_not_both)
  qed
  with append_rest_items [OF wf, of "items_named (items self) item_ids"] vals
  have "append_rest ?m (items_named (items self) item_ids)
          = Inr (items_named (items self) item_ids @ filter (omitted item_ids) (items self))"
    by simp
  with reorder_success [OF str assms(2,3)] assms(4) items_named_ids [of item_ids "items self"]
  show ?thesis by (simp add: ids_exist_iff)
qed

text \<open>
  C3. On a list with distinct ids, when item_ids is a permutation of the ids of the list,
  Reorder succeeds and the stored list is then the items of the list before, arranged in the
  order of item_ids.
\<close>

theorem reorder_permutation:
  assumes "distinct_ids (items self)"
    and "mset (map (\<lambda>i. Some (VStr i)) item_ids) = mset (map id_of (items self))"
  shows "async_reorder self item_ids = (Inr (), self\<lparr>items := items_named (items self) item_ids\<rparr>)
         \<and> map id_of (items_named (items self) item_ids) = map (\<lambda>i. Some (VStr i)) item_ids
         \<and> mset (items_named (items self) item_ids) = mset (items self)"
proof -
  let ?xs = "items self" and ?ys = "items_named (items self) item_ids"
  let ?m = "filter (\<lambda>(k, itm). k \<notin> VStr ` set item_ids) (entries (items self))"
  from assms(2) have sets: "(\<lambda>i. Some (VStr i)) ` set item_ids = id_of ` set ?xs"
    by (metis mset_eq_setD set_map)
  have str: "\<forall>itm \<in> set ?xs. str_id itm"
  proof
    fix itm assume "itm \<in> set ?xs"
    then have "id_of itm \<in> (\<lambda>i. Some (VStr i)) ` set item_ids" using sets by blast
    then show "str_id itm" by (auto simp: str_id_iff)
  qed
  from assms have "distinct (map (\<lambda>i. Some (VStr i)) item_ids)"
    by (metis distinct_ids_def mset_eq_imp_distinct_iff)
  then have d: "distinct item_ids" by (simp add: distinct_map)
  have ex: "\<forall>i \<in> set item_ids. \<exists>itm \<in> set ?xs. has_id i itm"
  proof
    fix i assume "i \<in> set item_ids"
    then have "Some (VStr i) \<in> id_of ` set ?xs" using sets by blast
    then show "\<exists>itm \<in> set ?xs. has_id i itm" by (auto simp: has_id_def)
  qed
  have "filter (omitted item_ids) ?xs = []"
  proof -
    have "\<not> omitted item_ids itm" if "itm \<in> set ?xs" for itm
    proof -
      from that have "id_of itm \<in> (\<lambda>i. Some (VStr i)) ` set item_ids" using sets by blast
      then show ?thesis by (auto simp: omitted_iff has_id_def)
    qed
    then show ?thesis by (simp add: filter_empty_conv)
  qed
  with rest_entries [OF str, of item_ids] have "?m = []" by simp
  with reorder_success [OF str assms(1) d ex]
  have r: "async_reorder self item_ids = (Inr (), self\<lparr>items := ?ys\<rparr>)" by simp
  have ids: "map id_of ?ys = map (\<lambda>i. Some (VStr i)) item_ids"
    by (rule items_named_ids [OF ex])
  have "mset ?ys = mset ?xs"
  proof -
    from ids d have dy: "distinct (map id_of ?ys)" by (simp add: distinct_map inj_on_def)
    then have "distinct ?ys" by (simp add: distinct_map)
    moreover from assms(1) have "distinct ?xs" unfolding distinct_ids_def by (simp add: distinct_map)
    moreover have sub: "set ?ys \<subseteq> set ?xs" by (rule items_named_subset)
    moreover have "length ?ys = length ?xs"
      using ids assms(2) by (metis length_map size_mset)
    ultimately have "set ?ys = set ?xs"
      by (metis card_subset_eq distinct_card List.finite_set)
    with \<open>distinct ?ys\<close> \<open>distinct ?xs\<close> show ?thesis
      by (simp add: set_eq_iff_mset_eq_distinct)
  qed
  with r ids show ?thesis by simp
qed



lemma is_item_complete_cases:
  "is_item itm \<Longrightarrow> getitem itm ''complete'' = Inr (VBool True) \<and> is_complete itm \<and> \<not> is_incomplete itm
     \<or> getitem itm ''complete'' = Inr (VBool False) \<and> is_incomplete itm \<and> \<not> is_complete itm"
  by (auto simp: is_item_def getitem_def is_complete_def is_incomplete_def split: option.splits pyval.splits)

lemma incomplete_items_filter:
  "list_all is_item xs \<Longrightarrow> incomplete_items xs = Inr (filter is_incomplete xs)"
proof (induction xs)
  case Nil
  show ?case by simp
next
  case (Cons itm rest)
  from Cons.prems have "is_item itm" by simp
  from is_item_complete_cases [OF this] Cons show ?case by auto
qed

text \<open>
  C8. Add has no failing path: on a list of length n it returns a new item with complete
  False, index n, the given name and type and the generated id, and stores the old list
  with that item appended, the first n items as they were. When the generated id is the id of
  no item of the list, the new item's id differs from the id of every item of the list.
\<close>

theorem async_add_appends:
  "\<exists>item. async_add self name item_type new_id = (item, self\<lparr>items := items self @ [item]\<rparr>)
     \<and> map_of item ''complete'' = Some (VBool False)
     \<and> map_of item ''index'' = Some (VInt (int (length (items self))))
     \<and> map_of item ''name'' = Some name
     \<and> map_of item ''type'' = Some item_type
     \<and> id_of item = Some (VStr new_id)
     \<and> length (items (snd (async_add self name item_type new_id))) = Suc (length (items self))
     \<and> take (length (items self)) (items (snd (async_add self name item_type new_id))) = items self
     \<and> (\<not> list_ex (has_id new_id) (items self) \<longrightarrow> id_of item \<notin> set (map id_of (items self)))"
  by (auto simp: async_add_def Let_def id_of_def has_id_def list_ex_iff)

text \<open>
  C7. On a list of items, ClearCompleted succeeds and stores the items that are not complete,
  in the order they had: the items removed are those that are complete. Called again
  right after, it succeeds and stores the same list.
\<close>

theorem async_clear_completed_filter:
  assumes "list_all is_item (items self)"
  shows "async_clear_completed self = (Inr (), self\<lparr>items := filter is_incomplete (items self)\<rparr>)
         \<and> filter is_incomplete (items self) = filter (\<lambda>itm. \<not> is_complete itm) (items self)
         \<and> async_clear_completed (snd (async_clear_completed self))
             = (Inr (), snd (async_clear_completed self))"
proof -
  let ?kept = "filter is_incomplete (items self)"
  have first: "async_clear_completed self = (Inr (), self\<lparr>items := ?kept\<rparr>)"
    using incomplete_items_filter [OF assms] by (simp add: async_clear_completed_def)
  from assms have "list_all is_item ?kept" by (simp add: list_all_iff)
  then have "incomplete_items ?kept = Inr (filter is_incomplete ?kept)"
    by (rule incomplete_items_filter)
  then have again: "async_clear_completed (self\<lparr>items := ?kept\<rparr>) = (Inr (), self\<lparr>items := ?kept\<rparr>)"
    by (simp add: async_clear_completed_def)
  have same: "?kept = filter (\<lambda>itm. \<not> is_complete itm) (items self)"
    using assms by (intro filter_cong) (auto simp: list_all_iff is_item_not_both)
  from first again same show ?thesis by simp
qed




lemmas ex_defs = ex_data_def ex_A_def ex_B_def ex_C_def
lemmas pred_defs = has_id_def id_of_def is_item_def is_complete_def is_incomplete_def
  distinct_ids_def omitted_def ids_exist_def items_named_def List.map_filter_simps

theorem reorder_unknown_id_witness:
  "(\<exists>i \<in> set [''b'', ''x'']. \<forall>itm \<in> set (items ex_data). \<not> has_id i itm)
   \<and> async_reorder ex_data [''b'', ''x''] = (Inl KeyError, ex_data)"
proof -
  have h: "\<exists>i \<in> set [''b'', ''x'']. \<forall>itm \<in> set (items ex_data). \<not> has_id i itm"
    by (simp add: ex_defs pred_defs)
  from reorder_unknown_id [OF h] h show ?thesis by simp
qed

theorem reorder_repeated_id_witness:
  "\<not> distinct [''b'', ''c'', ''b''] \<and> ids_exist (items ex_data) [''b'', ''c'', ''b'']
   \<and> async_reorder ex_data [''b'', ''c'', ''b''] = (Inl KeyError, ex_data)"
proof -
  have h: "\<not> distinct [''b'', ''c'', ''b'']" by simp
  have e: "ids_exist (items ex_data) [''b'', ''c'', ''b'']" by (simp add: ex_defs pred_defs)
  from reorder_repeated_id [OF h, of ex_data] h e show ?thesis by blast
qed

theorem reorder_omits_incomplete_witness:
  "list_all is_item (items ex_data) \<and> distinct_ids (items ex_data) \<and> distinct [''b'']
   \<and> ids_exist (items ex_data) [''b'']
   \<and> (\<exists>itm \<in> set (items ex_data). omitted [''b''] itm \<and> is_incomplete itm)
   \<and> async_reorder ex_data [''b''] = (Inl Invalid, ex_data)"
proof -
  have h1: "list_all is_item (items ex_data)" by (simp add: ex_defs pred_defs)
  have h2: "distinct_ids (items ex_data)" by (simp add: ex_defs pred_defs)
  have h3: "distinct [''b'']" by simp
  have h4: "ids_exist (items ex_data) [''b'']" by (simp add: ex_defs pred_defs)
  have h5: "\<exists>itm \<in> set (items ex_data). omitted [''b''] itm \<and> is_incomplete itm"
    by (simp add: ex_defs pred_defs)
  from reorder_omits_incomplete [OF h1 h2 h3 h4 h5] h1 h2 h3 h4 h5 show ?thesis by simp
qed

theorem reorder_appends_completed_witness:
  "list_all is_item (items ex_data) \<and> distinct_ids (items ex_data) \<and> distinct [''c'', ''b'']
   \<and> ids_exist (items ex_data) [''c'', ''b'']
   \<and> list_all is_complete (filter (omitted [''c'', ''b'']) (items ex_data))
   \<and> async_reorder ex_data [''c'', ''b''] = (Inr (), \<lparr>items = [ex_C, ex_B, ex_A]\<rparr>)"
proof -
  have h1: "list_all is_item (items ex_data)" by (simp add: ex_defs pred_defs)
  have h2: "distinct_ids (items ex_data)" by (simp add: ex_defs pred_defs)
  have h3: "distinct [''c'', ''b'']" by simp
  have h4: "ids_exist (items ex_data) [''c'', ''b'']" by (simp add: ex_defs pred_defs)
  have h5: "list_all is_complete (filter (omitted [''c'', ''b'']) (items ex_data))"
    by (simp add: ex_defs pred_defs)
  have named: "items_named (items ex_data) [''c'', ''b''] @ filter (omitted [''c'', ''b'']) (items ex_data)
                 = [ex_C, ex_B, ex_A]"
    by (simp add: ex_defs pred_defs)
  from reorder_appends_completed [OF h1 h2 h3 h4 h5] named h1 h2 h3 h4 h5 show ?thesis
    by (simp add: ex_data_def)
qed

theorem reorder_permutation_witness:
  "distinct_ids (items ex_data)
   \<and> mset (map (\<lambda>i. Some (VStr i)) [''c'', ''a'', ''b'']) = mset (map id_of (items ex_data))
   \<and> async_reorder ex_data [''c'', ''a'', ''b''] = (Inr (), \<lparr>items = [ex_C, ex_A, ex_B]\<rparr>)"
proof -
  have h1: "distinct_ids (items ex_data)" by (simp add: ex_defs pred_defs)
  have h2: "mset (map (\<lambda>i. Some (VStr i)) [''c'', ''a'', ''b'']) = mset (map id_of (items ex_data))"
    by (simp add: ex_defs pred_defs)
  have named: "items_named (items ex_data) [''c'', ''a'', ''b''] = [ex_C, ex_A, ex_B]"
    by (simp add: ex_defs pred_defs)
  from reorder_permutation [OF h1 h2] named h1 h2 show ?thesis
    by (simp add: ex_data_def)
qed

theorem async_add_appends_witness:
  "\<not> list_ex (has_id ''d'') (items ex_data)
   \<and> async_add ex_data (VStr ''Milk'') VNone ''d''
       = ([(''name'', VStr ''Milk''), (''type'', VNone), (''id'', VStr ''d''),
           (''complete'', VBool False), (''index'', VInt 3)],
          \<lparr>items = [ex_A, ex_B, ex_C,
             [(''name'', VStr ''Milk''), (''type'', VNone), (''id'', VStr ''d''),
              (''complete'', VBool False), (''index'', VInt 3)]]\<rparr>)
   \<and> Some (VStr ''d'') \<notin> set (map id_of (items ex_data))"
proof -
  have h: "\<not> list_ex (has_id ''d'') (items ex_data)" by (simp add: ex_defs pred_defs)
  from async_add_appends [of ex_data "VStr ''Milk''" VNone "''d''"] h show ?thesis
    by (auto simp: ex_data_def async_add_def Let_def)
qed

theorem async_clear_completed_filter_witness:
  "list_all is_item (items ex_data)
   \<and> async_clear_completed ex_data = (Inr (), \<lparr>items = [ex_B, ex_C]\<rparr>)
   \<and> async_clear_completed \<lparr>items = [ex_B, ex_C]\<rparr> = (Inr (), \<lparr>items = [ex_B, ex_C]\<rparr>)"
proof -
  have h: "list_all is_item (items ex_data)" by (simp add: ex_defs pred_defs)
  have kept: "ex_data\<lparr>items := filter is_incomplete (items ex_data)\<rparr> = \<lparr>items = [ex_B, ex_C]\<rparr>"
    by (simp add: ex_defs pred_defs)
  note inst = async_clear_completed_filter [OF h]
  from inst have first: "async_clear_completed ex_data = (Inr (), \<lparr>items = [ex_B, ex_C]\<rparr>)"
    unfolding kept by (rule conjunct1)
  from inst have "async_clear_completed (snd (async_clear_completed ex_data))
                   = (Inr (), snd (async_clear_completed ex_data))"
    by (elim conjE)
  then have again: "async_clear_completed \<lparr>items = [ex_B, ex_C]\<rparr> = (Inr (), \<lparr>items = [ex_B, ex_C]\<rparr>)"
    unfolding first snd_conv .
  from h first again show ?thesis by (intro conjI)
qed

lemmas run_defs = async_reorder_def getitem_def mapping_del_def async_update_def
  async_update_list_def ITEM_UPDATE_SCHEMA_def schema_entry_ok_def dict_update_def Let_def

theorem reorder_omits_incomplete_counterexample:
  "list_all is_item [ex_B, ex_C] \<and> distinct_ids [ex_B, ex_C]
   \<and> ids_exist [ex_B, ex_C] [''b'', ''b'']
   \<and> omitted [''b'', ''b''] ex_C \<and> is_incomplete ex_C
   \<and> async_reorder \<lparr>items = [ex_B, ex_C]\<rparr> [''b'', ''b'']
       = (Inl KeyError, \<lparr>items = [ex_B, ex_C]\<rparr>)"
  by (simp add: ex_defs pred_defs run_defs)

theorem reorder_appends_completed_counterexample:
  "list_all is_item [ex_A] \<and> distinct_ids [ex_A]
   \<and> ids_exist [ex_A] [''a'', ''a'']
   \<and> filter (omitted [''a'', ''a'']) [ex_A] = []
   \<and> async_reorder \<lparr>items = [ex_A]\<rparr> [''a'', ''a''] = (Inl KeyError, \<lparr>items = [ex_A]\<rparr>)"
  by (simp add: ex_defs pred_defs run_defs)


lemma map_of_setitem: "map_of (setitem d k v) = (map_of d)(k \<mapsto> v)"
  by (induction d) (auto simp: fun_eq_iff)

lemma map_of_dict_update:
  "map_of (dict_update d info) k =
     (case map_of (rev info) k of None \<Rightarrow> map_of d k | Some v \<Rightarrow> Some v)"
proof (induction info arbitrary: d)
  case Nil
  show ?case by (simp add: dict_update_def)
next
  case (Cons p info)
  obtain k' v' where p: "p = (k', v')" by (cases p)
  have "dict_update d (p # info) = dict_update (setitem d k' v') info"
    by (simp add: dict_update_def p)
  with Cons [of "setitem d k' v'"] p show ?case
    by (auto simp: map_of_setitem map_add_def split: option.splits)
qed

lemma dict_update_other:
  "k \<notin> fst ` set info \<Longrightarrow> map_of (dict_update d info) k = map_of d k"
proof -
  assume "k \<notin> fst ` set info"
  then have "map_of (rev info) k = None" by (simp add: map_of_eq_None_iff)
  then show ?thesis by (simp add: map_of_dict_update)
qed

lemma schema_keys:
  "list_all schema_entry_ok info \<Longrightarrow> fst ` set info \<subseteq> {''complete'', ''name'', ''type''}"
  by (auto simp: list_all_iff schema_entry_ok_def split: if_splits)

lemma valid_keeps_id:
  "list_all schema_entry_ok info \<Longrightarrow> id_of (dict_update itm info) = id_of itm"
  unfolding id_of_def using schema_keys [of info] by (intro dict_update_other) auto

lemma valid_keeps_index:
  "list_all schema_entry_ok info \<Longrightarrow> map_of (dict_update itm info) ''index'' = map_of itm ''index''"
  using schema_keys [of info] by (intro dict_update_other) auto

lemma find_item_found:
  "\<lbrakk>\<forall>p \<in> set pre. \<exists>v. id_of p = Some v \<and> v \<noteq> VStr i; has_id i itm\<rbrakk>
   \<Longrightarrow> find_item (pre @ itm # post) i n = Inr (Some (n + length pre))"
  by (induction pre arbitrary: n) (auto simp: getitem_id has_id_def)

lemma find_item_absent:
  "\<forall>itm \<in> set xs. \<not> has_id i itm \<Longrightarrow> find_item xs i n = Inr None \<or> find_item xs i n = Inl KeyError"
  by (induction xs arbitrary: n) (auto simp: getitem_id has_id_def split: option.splits)

lemma async_update_absent:
  assumes "\<forall>itm \<in> set (items self). \<not> has_id item_id itm"
  shows "async_update self item_id info = (Inl KeyError, self)"
  using find_item_absent [OF assms, of 0] by (auto simp: async_update_def)

lemma async_update_at:
  assumes xs: "items self = pre @ itm # post"
    and pre: "\<forall>p \<in> set pre. \<exists>v. id_of p = Some v \<and> v \<noteq> VStr item_id"
    and itm: "has_id item_id itm"
    and valid: "list_all schema_entry_ok info"
  shows "async_update self item_id info =
           (Inr (dict_update itm info), self\<lparr>items := pre @ dict_update itm info # post\<rparr>)"
  using find_item_found [OF pre itm, of post 0] valid
  by (simp add: async_update_def xs ITEM_UPDATE_SCHEMA_def Let_def)

lemma distinct_ids_split:
  assumes "\<forall>itm \<in> set xs. str_id itm" and "distinct_ids xs" and "i < length xs" and "has_id item_id (xs ! i)"
  shows "\<forall>p \<in> set (take i xs). \<exists>v. id_of p = Some v \<and> v \<noteq> VStr item_id"
proof
  fix p assume p: "p \<in> set (take i xs)"
  then obtain j where j: "j < i" "p = xs ! j"
    by (metis in_set_conv_nth length_take min_less_iff_conj nth_take)
  with assms(3) have "p \<in> set xs" by simp
  with assms(1) obtain s where s: "id_of p = Some (VStr s)" by (auto simp: str_id_iff)
  from assms(2) have "distinct (map id_of xs)" by (simp add: distinct_ids_def)
  moreover from assms(3) j have "j < length (map id_of xs)" "i < length (map id_of xs)" "j \<noteq> i"
    by simp_all
  ultimately have "map id_of xs ! j \<noteq> map id_of xs ! i"
    by (simp only: nth_eq_iff_index_eq not_False_eq_True)
  with assms(3,4) j s have "VStr s \<noteq> VStr item_id" by (auto simp: has_id_def)
  with s show "\<exists>v. id_of p = Some v \<and> v \<noteq> VStr item_id" by simp
qed

text \<open>
  C6. Update raises KeyError (ItemNotFound) when no item of the list has the id. On a list of
  items with distinct ids, when the item at position i has the id and the fields pass the
  schema, Update returns that item with the fields assigned over it and stores the list with
  that position replaced, every other position as it was: a key of the fields has the value
  the fields give it (the last one, should a key be given twice), every other key its old
  value, the id and the index among them. Add followed by Update of the new id with
  complete True returns the added item with complete True and the name and type given to
  Add.
\<close>

theorem async_update_item:
  "(\<not> list_ex (has_id item_id) (items self) \<longrightarrow>
      async_update self item_id info = (Inl KeyError, self))
   \<and> (list_all is_item (items self) \<and> distinct_ids (items self) \<and> i < length (items self)
        \<and> has_id item_id (items self ! i) \<and> list_all schema_entry_ok info \<longrightarrow>
      async_update self item_id info =
        (Inr (dict_update (items self ! i) info),
         self\<lparr>items := (items self)[i := dict_update (items self ! i) info]\<rparr>)
      \<and> (\<forall>k. map_of (dict_update (items self ! i) info) k =
              (case map_of (rev info) k of None \<Rightarrow> map_of (items self ! i) k | Some v \<Rightarrow> Some v))
      \<and> id_of (dict_update (items self ! i) info) = id_of (items self ! i)
      \<and> map_of (dict_update (items self ! i) info) ''index'' = map_of (items self ! i) ''index'')
   \<and> (list_all is_item (items self) \<and> \<not> list_ex (has_id new_id) (items self) \<longrightarrow>
      async_update (snd (async_add self name item_type new_id)) new_id [(''complete'', VBool True)] =
        (Inr [(''name'', name), (''type'', item_type), (''id'', VStr new_id),
              (''complete'', VBool True), (''index'', VInt (int (length (items self))))],
         self\<lparr>items := items self @
            [[(''name'', name), (''type'', item_type), (''id'', VStr new_id),
              (''complete'', VBool True), (''index'', VInt (int (length (items self))))]]\<rparr>))"
proof (intro conjI impI)
  assume "\<not> list_ex (has_id item_id) (items self)"
  then show "async_update self item_id info = (Inl KeyError, self)"
    by (intro async_update_absent) (simp add: list_ex_iff)
next
  assume h: "list_all is_item (items self) \<and> distinct_ids (items self) \<and> i < length (items self)
        \<and> has_id item_id (items self ! i) \<and> list_all schema_entry_ok info"
  let ?xs = "items self"
  from h have split: "?xs = take i ?xs @ ?xs ! i # drop (Suc i) ?xs"
    by (simp add: id_take_nth_drop)
  from h have pre: "\<forall>p \<in> set (take i ?xs). \<exists>v. id_of p = Some v \<and> v \<noteq> VStr item_id"
    by (intro distinct_ids_split list_all_str_id) auto
  from h have "(items self)[i := dict_update (?xs ! i) info]
                 = take i ?xs @ dict_update (?xs ! i) info # drop (Suc i) ?xs"
    by (simp add: upd_conv_take_nth_drop)
  with async_update_at [OF split pre] h
  show "async_update self item_id info =
        (Inr (dict_update (items self ! i) info),
         self\<lparr>items := (items self)[i := dict_update (items self ! i) info]\<rparr>)" by simp
  show "\<forall>k. map_of (dict_update (items self ! i) info) k =
              (case map_of (rev info) k of None \<Rightarrow> map_of (items self ! i) k | Some v \<Rightarrow> Some v)"
    by (simp add: map_of_dict_update)
  from h show "id_of (dict_update (items self ! i) info) = id_of (items self ! i)"
    by (simp add: valid_keeps_id)
  from h show "map_of (dict_update (items self ! i) info) ''index'' = map_of (items self ! i) ''index''"
    by (simp add: valid_keeps_index)
next
  assume h: "list_all is_item (items self) \<and> \<not> list_ex (has_id new_id) (items self)"
  let ?new = "[(''name'', name), (''type'', item_type), (''id'', VStr new_id),
              (''complete'', VBool False), (''index'', VInt (int (length (items self))))]"
  let ?self = "snd (async_add self name item_type new_id)"
  have xs: "items ?self = items self @ ?new # []" by (simp add: async_add_def Let_def)
  have pre: "\<forall>p \<in> set (items self). \<exists>v. id_of p = Some v \<and> v \<noteq> VStr new_id"
  proof
    fix p assume p: "p \<in> set (items self)"
    with h have "str_id p" by (simp add: list_all_iff is_item_str_id)
    moreover from h p have "\<not> has_id new_id p" by (auto simp: list_ex_iff)
    ultimately show "\<exists>v. id_of p = Some v \<and> v \<noteq> VStr new_id" by (auto simp: str_id_iff has_id_def)
  qed
  have new: "has_id new_id ?new" by (simp add: has_id_def id_of_def)
  have valid: "list_all schema_entry_ok [(''complete'', VBool True)]" by (simp add: schema_entry_ok_def)
  from async_update_at [OF xs pre new valid]
  show "async_update ?self new_id [(''complete'', VBool True)] =
        (Inr [(''name'', name), (''type'', item_type), (''id'', VStr new_id),
              (''complete'', VBool True), (''index'', VInt (int (length (items self))))],
         self\<lparr>items := items self @
            [[(''name'', name), (''type'', item_type), (''id'', VStr new_id),
              (''complete'', VBool True), (''index'', VInt (int (length (items self))))]]\<rparr>)"
    by (simp add: dict_update_def async_add_def Let_def)
qed


theorem async_update_item_witness:
  "\<not> list_ex (has_id ''z'') (items ex_data)
   \<and> async_update ex_data ''z'' [(''complete'', VBool True)] = (Inl KeyError, ex_data)
   \<and> list_all is_item (items ex_data) \<and> distinct_ids (items ex_data)
   \<and> (1::nat) < length (items ex_data) \<and> has_id ''b'' (items ex_data ! 1)
   \<and> list_all schema_entry_ok [(''complete'', VBool True), (''name'', VStr ''Bread'')]
   \<and> async_update ex_data ''b'' [(''complete'', VBool True), (''name'', VStr ''Bread'')]
       = (Inr [(''name'', VStr ''Bread''), (''type'', VNone), (''id'', VStr ''b''),
               (''complete'', VBool True), (''index'', VInt 1)],
          \<lparr>items = [ex_A,
                     [(''name'', VStr ''Bread''), (''type'', VNone), (''id'', VStr ''b''),
                      (''complete'', VBool True), (''index'', VInt 1)],
                     ex_C]\<rparr>)
   \<and> \<not> list_ex (has_id ''d'') (items ex_data)
   \<and> async_update (snd (async_add ex_data (VStr ''Milk'') VNone ''d'')) ''d'' [(''complete'', VBool True)]
       = (Inr [(''name'', VStr ''Milk''), (''type'', VNone), (''id'', VStr ''d''),
               (''complete'', VBool True), (''index'', VInt 3)],
          \<lparr>items = [ex_A, ex_B, ex_C,
                     [(''name'', VStr ''Milk''), (''type'', VNone), (''id'', VStr ''d''),
                      (''complete'', VBool True), (''index'', VInt 3)]]\<rparr>)"
proof -
  let ?info = "[(''complete'', VBool True), (''name'', VStr ''Bread'')]"
  have a: "\<not> list_ex (has_id ''z'') (items ex_data)" by (simp add: ex_defs pred_defs)
  have b: "list_all is_item (items ex_data) \<and> distinct_ids (items ex_data)
           \<and> (1::nat) < length (items ex_data) \<and> has_id ''b'' (items ex_data ! 1)
           \<and> list_all schema_entry_ok ?info"
    by (simp add: ex_defs pred_defs schema_entry_ok_def)
  have c: "list_all is_item (items ex_data) \<and> \<not> list_ex (has_id ''d'') (items ex_data)"
    by (simp add: ex_defs pred_defs)
  have r1: "async_update ex_data ''z'' [(''complete'', VBool True)] = (Inl KeyError, ex_data)"
    using async_update_item [of "''z''" ex_data "[(''complete'', VBool True)]"] a by blast
  have "async_update ex_data ''b'' ?info =
          (Inr (dict_update (items ex_data ! 1) ?info),
           ex_data\<lparr>items := (items ex_data)[1 := dict_update (items ex_data ! 1) ?info]\<rparr>)"
    using async_update_item [of "''b''" ex_data ?info 1] b by blast
  then have r2: "async_update ex_data ''b'' ?info
       = (Inr [(''name'', VStr ''Bread''), (''type'', VNone), (''id'', VStr ''b''),
               (''complete'', VBool True), (''index'', VInt 1)],
          \<lparr>items = [ex_A,
                     [(''name'', VStr ''Bread''), (''type'', VNone), (''id'', VStr ''b''),
                      (''complete'', VBool True), (''index'', VInt 1)],
                     ex_C]\<rparr>)"
    by (simp add: ex_data_def ex_B_def dict_update_def)
  have "async_update (snd (async_add ex_data (VStr ''Milk'') VNone ''d'')) ''d'' [(''complete'', VBool True)]
       = (Inr [(''name'', VStr ''Milk''), (''type'', VNone), (''id'', VStr ''d''),
               (''complete'', VBool True), (''index'', VInt (int (length (items ex_data))))],
          ex_data\<lparr>items := items ex_data @
                     [[(''name'', VStr ''Milk''), (''type'', VNone), (''id'', VStr ''d''),
                      (''complete'', VBool True), (''index'', VInt (int (length (items ex_data))))]]\<rparr>)"
    using async_update_item [of _ ex_data _ _ "''d''" "VStr ''Milk''" VNone] c by blast
  then have r3: "async_update (snd (async_add ex_data (VStr ''Milk'') VNone ''d'')) ''d'' [(''complete'', VBool True)]
       = (Inr [(''name'', VStr ''Milk''), (''type'', VNone), (''id'', VStr ''d''),
               (''complete'', VBool True), (''index'', VInt 3)],
          \<lparr>items = [ex_A, ex_B, ex_C,
                     [(''name'', VStr ''Milk''), (''type'', VNone), (''id'', VStr ''d''),
                      (''complete'', VBool True), (''index'', VInt 3)]]\<rparr>)"
    by (simp add: ex_data_def)
  from a b c r1 r2 r3 show ?thesis by blast
qed

lemma update_each_suffix:
  assumes valid: "list_all schema_entry_ok info"
  shows "\<lbrakk>items self = pre @ todo; map id_of todo = map (\<lambda>i. Some (VStr i)) ids; distinct ids;
          \<forall>p \<in> set pre. \<exists>v. id_of p = Some v \<and> v \<notin> VStr ` set ids\<rbrakk>
         \<Longrightarrow> update_each self ids info =
               (Inr (), self\<lparr>items := pre @ map (\<lambda>itm. dict_update itm info) todo\<rparr>)"
proof (induction todo arbitrary: self pre ids)
  case Nil
  then show ?case by simp
next
  case (Cons itm rest)
  from Cons.prems(2) obtain i rest_ids where ids: "ids = i # rest_ids"
    and itm: "id_of itm = Some (VStr i)"
    and rest: "map id_of rest = map (\<lambda>i. Some (VStr i)) rest_ids"
    by (cases ids) auto
  let ?upd = "dict_update itm info"
  let ?self = "self\<lparr>items := pre @ ?upd # rest\<rparr>"
  from Cons.prems(4) ids have pre: "\<forall>p \<in> set pre. \<exists>v. id_of p = Some v \<and> v \<noteq> VStr i" by auto
  from itm have "has_id i itm" by (simp add: has_id_def)
  from async_update_at [OF Cons.prems(1) pre this valid]
  have step: "async_update self i info = (Inr ?upd, ?self)" .
  have xs: "items ?self = (pre @ [?upd]) @ rest" by simp
  from Cons.prems(3) ids have d: "distinct rest_ids" and fresh: "i \<notin> set rest_ids" by auto
  have pre': "\<forall>p \<in> set (pre @ [?upd]). \<exists>v. id_of p = Some v \<and> v \<notin> VStr ` set rest_ids"
    using Cons.prems(4) ids fresh itm valid_keeps_id [OF valid, of itm] by auto
  from Cons.IH [OF xs rest d pre'] step ids show ?case by simp
qed

text \<open>
  C1. (as amended: the fields pass Update's schema) UpdateAll runs no schema: the list in
  memory after its loop is the old list with the fields assigned over every item, also
  when the schema refuses the fields; a key of the fields takes the value given, every
  other key keeps its value. When the fields pass the schema and the ids of the list are
  pairwise distinct strs, this list is the one that calling Update once for the id of each
  item, in the order of the list, ends in, and Update refuses none of these calls.
\<close>

theorem async_update_list_merges:
  "items (snd (async_update_list self info)) = map (\<lambda>itm. dict_update itm info) (items self)
   \<and> (\<forall>itm k. map_of (dict_update itm info) k =
         (case map_of (rev info) k of None \<Rightarrow> map_of itm k | Some v \<Rightarrow> Some v))
   \<and> (list_all schema_entry_ok info \<and> map id_of (items self) = map (\<lambda>i. Some (VStr i)) item_ids
        \<and> distinct item_ids \<longrightarrow>
      update_each self item_ids info = (Inr (), snd (async_update_list self info)))"
proof (intro conjI impI allI)
  show "items (snd (async_update_list self info)) = map (\<lambda>itm. dict_update itm info) (items self)"
    by (simp add: async_update_list_def Let_def)
  show "map_of (dict_update itm info) k =
         (case map_of (rev info) k of None \<Rightarrow> map_of itm k | Some v \<Rightarrow> Some v)" for itm k
    by (rule map_of_dict_update)
  assume h: "list_all schema_entry_ok info \<and> map id_of (items self) = map (\<lambda>i. Some (VStr i)) item_ids
        \<and> distinct item_ids"
  then have "update_each self item_ids info =
               (Inr (), self\<lparr>items := [] @ map (\<lambda>itm. dict_update itm info) (items self)\<rparr>)"
    by (intro update_each_suffix) auto
  then show "update_each self item_ids info = (Inr (), snd (async_update_list self info))"
    by (simp add: async_update_list_def Let_def)
qed


lemma mapping_set_mset: "mset (map snd (mapping_set m k itm)) \<subseteq># add_mset itm (mset (map snd m))"
proof (induction m)
  case Nil
  show ?case by simp
next
  case (Cons p m)
  obtain k' itm' where p: "p = (k', itm')" by (cases p)
  show ?case
  proof (cases "py_eq k' k")
    case True
    with p show ?thesis by simp
  next
    case False
    with p Cons.IH show ?thesis by (simp add: add_mset_commute)
  qed
qed

lemma build_mapping_mset:
  "build_mapping xs m = Inr m' \<Longrightarrow> mset (map snd m') \<subseteq># mset (map snd m) + mset xs"
proof (induction xs arbitrary: m)
  case Nil
  then show ?case by simp
next
  case (Cons itm rest)
  from Cons.prems obtain k where b: "build_mapping rest (mapping_set m k itm) = Inr m'"
    by (auto simp: getitem_id split: option.splits)
  from Cons.IH [OF b] have "mset (map snd m') \<subseteq># mset (map snd (mapping_set m k itm)) + mset rest" .
  also have "\<dots> \<subseteq># add_mset itm (mset (map snd m)) + mset rest"
    using mapping_set_mset [of m k itm] by (simp add: subset_mset.add_mono)
  finally show ?case by simp
qed

lemma filter_mset_sub: "mset (map snd (filter P m)) \<subseteq># mset (map snd m)"
  by (induction m) (auto intro: subset_mset.order_trans)

lemma mapping_get_del_mset:
  "mapping_get m k = Some itm \<Longrightarrow> add_mset itm (mset (map snd (mapping_del m k))) \<subseteq># mset (map snd m)"
proof (induction m)
  case Nil
  then show ?case by simp
next
  case (Cons p m)
  obtain k' itm' where p: "p = (k', itm')" by (cases p)
  show ?case
  proof (cases "py_eq k' k")
    case True
    with Cons.prems p have "itm = itm'" by simp
    with True p filter_mset_sub [of "\<lambda>(k', itm). \<not> py_eq k' k" m] show ?thesis
      by (simp add: mapping_del_def)
  next
    case False
    with Cons p show ?thesis by (simp add: mapping_del_def add_mset_commute)
  qed
qed

lemma place_items_mset:
  "place_items ids m acc = Inr (placed, m')
   \<Longrightarrow> mset placed + mset (map snd m') \<subseteq># mset acc + mset (map snd m)"
proof (induction ids arbitrary: m acc)
  case Nil
  then show ?case by simp
next
  case (Cons i rest)
  from Cons.prems obtain itm where g: "mapping_get m (VStr i) = Some itm"
    and p: "place_items rest (mapping_del m (VStr i)) (acc @ [itm]) = Inr (placed, m')"
    by (auto split: option.splits)
  from Cons.IH [OF p]
  have "mset placed + mset (map snd m') \<subseteq># mset acc + add_mset itm (mset (map snd (mapping_del m (VStr i))))"
    by simp
  also have "\<dots> \<subseteq># mset acc + mset (map snd m)"
    using mapping_get_del_mset [OF g] by (simp only: subset_mset.add_left_mono)
  finally show ?case .
qed

lemma append_rest_Inr: "append_rest m acc = Inr r \<Longrightarrow> r = acc @ map snd m"
proof (induction m arbitrary: acc)
  case Nil
  then show ?case by simp
next
  case (Cons p m)
  obtain k itm where p: "p = (k, itm)" by (cases p)
  from Cons.prems p have "append_rest m (acc @ [itm]) = Inr r"
    by (auto split: sum.splits if_splits)
  from Cons.IH [OF this] p show ?case by simp
qed

lemma async_reorder_result:
  "snd (async_reorder self item_ids) = self \<or>
   mset (items (snd (async_reorder self item_ids))) \<subseteq># mset (items self)"
proof (cases "build_mapping (items self) []")
  case (Inl e)
  then show ?thesis by (simp add: async_reorder_def)
next
  case m: (Inr m)
  show ?thesis
  proof (cases "place_items item_ids m []")
    case (Inl e)
    with m show ?thesis by (simp add: async_reorder_def)
  next
    case (Inr r)
    obtain placed m' where r: "r = (placed, m')" by (cases r)
    show ?thesis
    proof (cases "append_rest m' placed")
      case (Inl e)
      with m Inr r show ?thesis by (simp add: async_reorder_def)
    next
      case new: (Inr new_items)
      from append_rest_Inr [OF new] have "mset new_items = mset placed + mset (map snd m')" by simp
      also from place_items_mset [of item_ids m "[]" placed m'] Inr r
      have "\<dots> \<subseteq># mset (map snd m)" by simp
      also from build_mapping_mset [OF m] have "\<dots> \<subseteq># mset (items self)" by simp
      finally show ?thesis using m Inr r new by (simp add: async_reorder_def)
    qed
  qed
qed

lemma distinct_ids_sub:
  assumes "mset ys \<subseteq># mset xs" and "distinct_ids xs"
  shows "distinct_ids ys"
proof -
  from assms(1) have sub: "mset (map id_of ys) \<subseteq># mset (map id_of xs)"
    by (metis image_mset_subseteq_mono mset_map)
  have "count (mset (map id_of ys)) a = (if a \<in> set (map id_of ys) then 1 else 0)" for a
  proof (cases "a \<in> set (map id_of ys)")
    case True
    then have "1 \<le> count (mset (map id_of ys)) a" by (metis count_greater_eq_one_iff set_mset_mset)
    moreover from sub have "count (mset (map id_of ys)) a \<le> count (mset (map id_of xs)) a"
      by (rule mset_subset_eq_count)
    moreover from assms(2) have "count (mset (map id_of xs)) a \<le> 1"
      unfolding distinct_ids_def by (simp add: distinct_count_atmost_1)
    ultimately have "count (mset (map id_of ys)) a = 1" by linarith
    with True show ?thesis by (simp only: if_True)
  next
    case False
    then show ?thesis by (simp add: count_eq_zero_iff)
  qed
  then show ?thesis unfolding distinct_ids_def by (simp add: distinct_count_atmost_1)
qed

lemma incomplete_items_sub: "incomplete_items xs = Inr kept \<Longrightarrow> mset kept \<subseteq># mset xs"
proof (induction xs arbitrary: kept)
  case Nil
  then show ?case by simp
next
  case (Cons itm rest)
  from Cons.prems obtain c kept' where "incomplete_items rest = Inr kept'"
    and k: "kept = (if \<not> truthy c then itm # kept' else kept')"
    by (auto split: sum.splits)
  from Cons.IH [OF this(1)] k show ?case
    by (auto intro: subset_mset.order_trans)
qed

lemma find_item_range: "find_item xs item_id n = Inr (Some j) \<Longrightarrow> n \<le> j \<and> j < n + length xs"
proof (induction xs arbitrary: n)
  case Nil
  then show ?case by simp
next
  case (Cons itm rest)
  show ?case
  proof (cases "find_item rest item_id (Suc n) = Inr (Some j)")
    case True
    from Cons.IH [OF this] show ?thesis by simp
  next
    case False
    with Cons.prems show ?thesis by (auto split: sum.splits if_splits)
  qed
qed

lemma async_update_ids:
  "map id_of (items (snd (async_update self item_id info))) = map id_of (items self)"
proof (cases "find_item (items self) item_id 0")
  case (Inl e)
  then show ?thesis by (simp add: async_update_def)
next
  case (Inr found)
  show ?thesis
  proof (cases found)
    case None
    with Inr show ?thesis by (simp add: async_update_def)
  next
    case (Some i)
    with Inr find_item_range [of "items self" item_id 0 i] have i: "i < length (items self)" by simp
    show ?thesis
    proof (cases "list_all schema_entry_ok info")
      case True
      with Inr Some i show ?thesis
        by (simp add: async_update_def ITEM_UPDATE_SCHEMA_def Let_def map_update valid_keeps_id
                      list_update_same_conv)
    next
      case False
      with Inr Some show ?thesis by (simp add: async_update_def ITEM_UPDATE_SCHEMA_def)
    qed
  qed
qed

lemma add_each_ids:
  "map id_of (items (add_each self adds)) = map id_of (items self) @ map (\<lambda>a. Some (VStr (snd (snd a)))) adds"
proof (induction adds arbitrary: self)
  case Nil
  show ?case by simp
next
  case (Cons a adds)
  obtain name item_type new_id where a: "a = (name, item_type, new_id)" by (cases a)
  from Cons [of "snd (async_add self name item_type new_id)"] a show ?case
    by (simp add: async_add_def Let_def id_of_def)
qed

text \<open>
  C9. (as amended: UpdateAll with fields that have no id key) From a list whose ids are
  pairwise distinct, each operation leaves a list whose ids are pairwise distinct: Add when
  the generated id is the id of no item of the list, Update, ClearCompleted, UpdateAll when
  the fields have no key id, Reorder and ListItems, whether the call succeeds or raises.
  Adds from the empty list with pairwise distinct generated ids leave a list with pairwise
  distinct ids.
\<close>

theorem distinct_ids_invariant:
  "(distinct_ids (items self) \<longrightarrow>
      (\<not> list_ex (has_id new_id) (items self) \<longrightarrow>
         distinct_ids (items (snd (async_add self name item_type new_id))))
      \<and> distinct_ids (items (snd (async_update self item_id info)))
      \<and> distinct_ids (items (snd (async_clear_completed self)))
      \<and> (''id'' \<notin> fst ` set info \<longrightarrow> distinct_ids (items (snd (async_update_list self info))))
      \<and> distinct_ids (items (snd (async_reorder self item_ids)))
      \<and> distinct_ids (items (snd (async_list_items self))))
   \<and> (distinct (map (\<lambda>a. snd (snd a)) adds) \<longrightarrow> distinct_ids (items (add_each \<lparr>items = []\<rparr> adds)))"
proof (intro conjI impI)
  assume d: "distinct_ids (items self)"
  show "distinct_ids (items (snd (async_update self item_id info)))"
    using d by (simp add: distinct_ids_def async_update_ids)
  show "distinct_ids (items (snd (async_clear_completed self)))"
  proof (cases "incomplete_items (items self)")
    case (Inl e)
    with d show ?thesis by (simp add: async_clear_completed_def)
  next
    case (Inr kept)
    from distinct_ids_sub [OF incomplete_items_sub [OF Inr] d] Inr show ?thesis
      by (simp add: async_clear_completed_def)
  qed
  show "distinct_ids (items (snd (async_reorder self item_ids)))"
    using async_reorder_result [of self item_ids] d by (auto intro: distinct_ids_sub)
  show "distinct_ids (items (snd (async_list_items self)))"
    using d by (simp add: async_list_items_def)
  {
    assume "\<not> list_ex (has_id new_id) (items self)"
    with d show "distinct_ids (items (snd (async_add self name item_type new_id)))"
      by (auto simp: async_add_def Let_def distinct_ids_def id_of_def has_id_def list_ex_iff)
  }
  {
    assume "''id'' \<notin> fst ` set info"
    then have "id_of (dict_update itm info) = id_of itm" for itm
      unfolding id_of_def by (rule dict_update_other)
    with d show "distinct_ids (items (snd (async_update_list self info)))"
      by (simp add: async_update_list_def Let_def distinct_ids_def comp_def)
  }
next
  assume "distinct (map (\<lambda>a. snd (snd a)) adds)"
  then have "distinct (map (\<lambda>a. Some (VStr (snd (snd a)))) adds)"
    by (simp add: distinct_map inj_on_def)
  then show "distinct_ids (items (add_each \<lparr>items = []\<rparr> adds))"
    by (simp add: distinct_ids_def add_each_ids)
qed


theorem async_update_list_merges_witness:
  "list_all schema_entry_ok [(''complete'', VBool True)]
   \<and> map id_of (items ex_data) = map (\<lambda>i. Some (VStr i)) [''a'', ''b'', ''c'']
   \<and> distinct [''a'', ''b'', ''c'']
   \<and> update_each ex_data [''a'', ''b'', ''c''] [(''complete'', VBool True)]
       = (Inr (), snd (async_update_list ex_data [(''complete'', VBool True)]))
   \<and> items (snd (async_update_list ex_data [(''complete'', VBool True)]))
       = [ex_A,
          [(''name'', VStr ''B''), (''type'', VNone), (''id'', VStr ''b''),
           (''complete'', VBool True), (''index'', VInt 1)],
          [(''name'', VStr ''C''), (''type'', VStr ''food''), (''id'', VStr ''c''),
           (''complete'', VBool True), (''index'', VInt 2)]]"
proof -
  let ?info = "[(''complete'', VBool True)]"
  have h: "list_all schema_entry_ok ?info
           \<and> map id_of (items ex_data) = map (\<lambda>i. Some (VStr i)) [''a'', ''b'', ''c'']
           \<and> distinct [''a'', ''b'', ''c'']"
    by (simp add: ex_defs pred_defs schema_entry_ok_def)
  have r: "update_each ex_data [''a'', ''b'', ''c''] ?info = (Inr (), snd (async_update_list ex_data ?info))"
    using async_update_list_merges [of ex_data ?info "[''a'', ''b'', ''c'']"] h by blast
  have v: "items (snd (async_update_list ex_data ?info))
       = [ex_A,
          [(''name'', VStr ''B''), (''type'', VNone), (''id'', VStr ''b''),
           (''complete'', VBool True), (''index'', VInt 1)],
          [(''name'', VStr ''C''), (''type'', VStr ''food''), (''id'', VStr ''c''),
           (''complete'', VBool True), (''index'', VInt 2)]]"
    by (simp add: ex_defs run_defs)
  from h r v show ?thesis by blast
qed

theorem async_update_list_counterexample:
  "async_update ex_data ''a'' [(''foo'', VInt 1)] = (Inl Invalid, ex_data)
   \<and> update_each ex_data [''a'', ''b'', ''c''] [(''foo'', VInt 1)] = (Inl Invalid, ex_data)
   \<and> items (snd (async_update_list ex_data [(''foo'', VInt 1)]))
       = [ex_A @ [(''foo'', VInt 1)], ex_B @ [(''foo'', VInt 1)], ex_C @ [(''foo'', VInt 1)]]
   \<and> async_update ex_data ''a'' [(''complete'', VStr ''yes'')] = (Inl Invalid, ex_data)
   \<and> map_of (hd (items (snd (async_update_list ex_data [(''complete'', VStr ''yes'')])))) ''complete''
       = Some (VStr ''yes'')"
  by (simp add: ex_defs run_defs)

theorem distinct_ids_invariant_witness:
  "distinct_ids (items ex_data)
   \<and> \<not> list_ex (has_id ''d'') (items ex_data)
   \<and> distinct_ids (items (snd (async_add ex_data (VStr ''Milk'') VNone ''d'')))
   \<and> distinct_ids (items (snd (async_update ex_data ''b'' [(''complete'', VBool True)])))
   \<and> distinct_ids (items (snd (async_clear_completed ex_data)))
   \<and> ''id'' \<notin> fst ` set [(''complete'', VBool True)]
   \<and> distinct_ids (items (snd (async_update_list ex_data [(''complete'', VBool True)])))
   \<and> distinct_ids (items (snd (async_reorder ex_data [''c'', ''b''])))
   \<and> distinct_ids (items (snd (async_list_items ex_data)))
   \<and> distinct (map (\<lambda>a. snd (snd a)) [(VStr ''Milk'', VNone, ''x''), (VStr ''Eggs'', VNone, ''y'')])
   \<and> distinct_ids (items (add_each \<lparr>items = []\<rparr> [(VStr ''Milk'', VNone, ''x''), (VStr ''Eggs'', VNone, ''y'')]))"
proof -
  have h1: "distinct_ids (items ex_data)" by (simp add: ex_defs pred_defs)
  have h2: "\<not> list_ex (has_id ''d'') (items ex_data)" by (simp add: ex_defs pred_defs)
  have h3: "''id'' \<notin> fst ` set [(''complete'', VBool True)]" by simp
  have h4: "distinct (map (\<lambda>a. snd (snd a)) [(VStr ''Milk'', VNone, ''x''), (VStr ''Eggs'', VNone, ''y'')])"
    by simp
  from distinct_ids_invariant [of ex_data "''d''" "VStr ''Milk''" VNone "''b''"
      "[(''complete'', VBool True)]" "[''c'', ''b'']"
      "[(VStr ''Milk'', VNone, ''x''), (VStr ''Eggs'', VNone, ''y'')]"] h1 h2 h3 h4
  show ?thesis by blast
qed

theorem distinct_ids_invariant_counterexample:
  "distinct_ids (items ex_data)
   \<and> \<not> distinct_ids (items (snd (async_update_list ex_data [(''id'', VStr ''x'')])))"
  by (simp add: ex_defs pred_defs run_defs)

end
